theory Spec2Isabelle
  imports Main "HOL-Library.List_Lexorder"
begin

section \<open>The corpus consistency checker (generator/sanitizer.py)\<close>

text \<open>
  A Python \<open>str\<close> is a sequence of Unicode code points; it is modelled as a list of
  natural numbers, compared lexicographically by code point as Python compares strings.
\<close>

type_synonym ustr = "nat list"

subsection \<open>The Unicode library calls\<close>

text \<open>
  The checker calls four routines of the Python runtime:
  \<^item> \<open>unicodedata.category(c).startswith('L')\<close>,
  \<^item> \<open>unicodedata.category(c) == 'Mn'\<close>,
  \<^item> \<open>unicodedata.normalize('NFD', s)\<close>,
  \<^item> \<open>s.lower()\<close>.
  Their tables are not part of the repository, so they are a parameter of every
  definition below.
\<close>

record ucd =
  uc_letter :: "nat \<Rightarrow> bool"
  uc_mark :: "nat \<Rightarrow> bool"
  uc_nfd :: "ustr \<Rightarrow> ustr"
  uc_lower :: "ustr \<Rightarrow> ustr"

definition strip_tones :: "ucd \<Rightarrow> ustr \<Rightarrow> ustr" where
  "strip_tones U s = uc_lower U (filter (\<lambda>c. \<not> uc_mark U c) (uc_nfd U s))"

definition normalize_pinyin_full :: "ucd \<Rightarrow> ustr \<Rightarrow> ustr" where
  "normalize_pinyin_full U p = uc_lower U (filter (uc_letter U) p)"

definition normalize_pinyin_stripped :: "ucd \<Rightarrow> ustr \<Rightarrow> ustr" where
  "normalize_pinyin_stripped U p =
     uc_lower U (filter (uc_letter U) (strip_tones U p))"

subsection \<open>The loaded document\<close>

text \<open>
  \<open>yaml.safe_load\<close> returns a list of mappings. A key that may be absent is an
  \<open>option\<close> field.
\<close>

record chunk =
  chinese :: "ustr option"
  pinyin :: "ustr option"

record entry =
  english :: "ustr option"
  chunks :: "chunk list option"

text \<open>\<open>chunk.get('chinese', '')\<close> and \<open>chunk.get('pinyin', '')\<close>.\<close>

definition get_chinese :: "chunk \<Rightarrow> ustr" where
  "get_chinese c = (case chinese c of None \<Rightarrow> [] | Some s \<Rightarrow> s)"

definition get_pinyin :: "chunk \<Rightarrow> ustr" where
  "get_pinyin c = (case pinyin c of None \<Rightarrow> [] | Some s \<Rightarrow> s)"

text \<open>\<open>"".join(chunk.get('chinese', '') for chunk in entry['chunks'])\<close>\<close>

definition full_chinese :: "chunk list \<Rightarrow> ustr" where
  "full_chinese cs = concat (map get_chinese cs)"

text \<open>\<open>sep.join(xs)\<close>\<close>

fun join :: "ustr \<Rightarrow> ustr list \<Rightarrow> ustr" where
  "join sep [] = []"
| "join sep [x] = x"
| "join sep (x # y # ys) = x @ sep @ join sep (y # ys)"

text \<open>\<open>" ".join(c.get('pinyin', '') for c in chunks)\<close>\<close>

definition full_py :: "chunk list \<Rightarrow> ustr" where
  "full_py cs = join [32] (map get_pinyin cs)"

text \<open>
  \<open>data[idx]['chunks']\<close> raises IndexError or KeyError; \<open>None\<close> stands for the
  uncaught exception.
\<close>

definition entry_chunks :: "entry list \<Rightarrow> nat \<Rightarrow> chunk list option" where
  "entry_chunks data idx =
     (if idx < length data then chunks (data ! idx) else None)"

text \<open>\<open>data[idx].get('english', '???')\<close>\<close>

definition english_or_unknown :: "entry list \<Rightarrow> nat \<Rightarrow> ustr option" where
  "english_or_unknown data idx =
     (if idx < length data
      then Some (case english (data ! idx) of None \<Rightarrow> [63, 63, 63] | Some s \<Rightarrow> s)
      else None)"

text \<open>\<open>data[idx].get('english')\<close>: the inner option is Python's \<open>None\<close>.\<close>

definition english_at :: "entry list \<Rightarrow> nat \<Rightarrow> ustr option option" where
  "english_at data idx = (if idx < length data then Some (english (data ! idx)) else None)"

subsection \<open>Insertion-ordered dictionaries\<close>

text \<open>
  A \<open>defaultdict(list)\<close> keeps its keys in the order of first insertion; it is an
  association list with distinct keys. \<open>d[k].append(v)\<close>:
\<close>

type_synonym ('k, 'v) ddict = "('k \<times> 'v list) list"

fun dd_append :: "('k, 'v) ddict \<Rightarrow> 'k \<Rightarrow> 'v \<Rightarrow> ('k, 'v) ddict" where
  "dd_append [] k v = [(k, [v])]"
| "dd_append ((k', vs) # d) k v =
     (if k' = k then (k', vs @ [v]) # d else (k', vs) # dd_append d k v)"

text \<open>\<open>d[k]\<close> on a \<open>defaultdict(list)\<close>: the empty list when the key is absent.\<close>

fun dd_get :: "('k, 'v) ddict \<Rightarrow> 'k \<Rightarrow> 'v list" where
  "dd_get [] k = []"
| "dd_get ((k', vs) # d) k = (if k' = k then vs else dd_get d k)"

text \<open>
  \<open>word_map = defaultdict(lambda: defaultdict(list))\<close> and
  \<open>word_map[ch][py_full].append(i)\<close>.
\<close>

type_synonym wmap = "(ustr \<times> (ustr, nat) ddict) list"

fun wm_append :: "wmap \<Rightarrow> ustr \<Rightarrow> ustr \<Rightarrow> nat \<Rightarrow> wmap" where
  "wm_append [] ch k i = [(ch, [(k, [i])])]"
| "wm_append ((ch', m) # w) ch k i =
     (if ch' = ch then (ch', dd_append m k i) # w else (ch', m) # wm_append w ch k i)"

subsection \<open>The grouping pass\<close>

text \<open>The inner loop over \<open>entry['chunks']\<close> (source lines 47 to 56).\<close>

fun chunk_loop :: "ucd \<Rightarrow> nat \<Rightarrow> chunk list \<Rightarrow> wmap \<Rightarrow> wmap" where
  "chunk_loop U i [] word_map = word_map"
| "chunk_loop U i (c # cs) word_map =
     (if \<not> list_ex (uc_letter U) (get_chinese c) then chunk_loop U i cs word_map
      else if normalize_pinyin_full U (get_pinyin c) = [] then chunk_loop U i cs word_map
      else chunk_loop U i cs
             (wm_append word_map (get_chinese c) (normalize_pinyin_full U (get_pinyin c)) i))"

text \<open>The loop over \<open>enumerate(data)\<close> (source lines 40 to 56).\<close>

fun scan_loop ::
  "ucd \<Rightarrow> (nat \<times> entry) list \<Rightarrow> (ustr, nat) ddict \<Rightarrow> wmap \<Rightarrow> (ustr, nat) ddict \<times> wmap"
where
  "scan_loop U [] chinese_groups word_map = (chinese_groups, word_map)"
| "scan_loop U ((i, e) # rest) chinese_groups word_map =
     (case chunks e of
        None \<Rightarrow> scan_loop U rest chinese_groups word_map
      | Some cs \<Rightarrow>
          scan_loop U rest (dd_append chinese_groups (full_chinese cs) i)
            (chunk_loop U i cs word_map))"

subsection \<open>The report\<close>

text \<open>One constructor per \<open>print\<close> call of the source, holding the values it formats.\<close>

datatype line =
    FileNotFound ustr
  | Analyzing ustr
  | ErrorParsingYAML ustr
  | EmptyFile
  | DuplicateSentence ustr
  | PinyinLine ustr
  | EnglishLine "ustr list"
  | MoreDuplicates nat
  | NoDuplicates
  | FoundDuplicates nat
  | TonesHeader
  | ChineseLine ustr
  | VariantLine ustr nat "ustr option"
  | NoneFound

subsection \<open>Output of the duplicates (source lines 59 to 80)\<close>

text \<open>The loop filling \<open>pinyin_map\<close> for one group of indices.\<close>

fun pinyin_map_loop ::
  "ucd \<Rightarrow> entry list \<Rightarrow> nat list \<Rightarrow> (ustr, nat) ddict \<Rightarrow> (ustr, nat) ddict option"
where
  "pinyin_map_loop U data [] pinyin_map = Some pinyin_map"
| "pinyin_map_loop U data (idx # idxs) pinyin_map =
     (case entry_chunks data idx of
        None \<Rightarrow> None
      | Some cs \<Rightarrow>
          pinyin_map_loop U data idxs
            (dd_append pinyin_map (normalize_pinyin_full U (full_py cs)) idx))"

text \<open>\<open>[data[idx].get('english', '???') for idx in indices]\<close>\<close>

fun english_list :: "entry list \<Rightarrow> nat list \<Rightarrow> ustr list option" where
  "english_list data [] = Some []"
| "english_list data (idx # idxs) =
     (case english_or_unknown data idx of
        None \<Rightarrow> None
      | Some s \<Rightarrow> (case english_list data idxs of None \<Rightarrow> None | Some ss \<Rightarrow> Some (s # ss)))"

text \<open>The three \<open>print\<close> calls for one duplicate group (source lines 70 to 72).\<close>

definition print_duplicate :: "entry list \<Rightarrow> ustr \<Rightarrow> nat list \<Rightarrow> line list option" where
  "print_duplicate data chinese_text indices =
     (case indices of
        [] \<Rightarrow> None
      | i0 # _ \<Rightarrow>
          (case entry_chunks data i0 of
             None \<Rightarrow> None
           | Some cs \<Rightarrow>
               (case english_list data indices of
                  None \<Rightarrow> None
                | Some es \<Rightarrow>
                    Some [DuplicateSentence chinese_text, PinyinLine (full_py cs),
                          EnglishLine es])))"

text \<open>
  The loop over \<open>chinese_groups.items()\<close>, threading the counter
  \<open>duplicates_found\<close>; it returns the final counter and the lines printed.
\<close>

fun duplicates_loop ::
  "ucd \<Rightarrow> entry list \<Rightarrow> (ustr, nat) ddict \<Rightarrow> nat \<Rightarrow> (nat \<times> line list) option"
where
  "duplicates_loop U data [] duplicates_found = Some (duplicates_found, [])"
| "duplicates_loop U data ((chinese_text, indices) # groups) duplicates_found =
     (if length indices > 1 then
        (case pinyin_map_loop U data indices [] of
           None \<Rightarrow> None
         | Some pinyin_map \<Rightarrow>
             if length pinyin_map = 1 then
               (if duplicates_found < 10 then
                  (case print_duplicate data chinese_text indices of
                     None \<Rightarrow> None
                   | Some ls \<Rightarrow>
                       (case duplicates_loop U data groups (duplicates_found + 1) of
                          None \<Rightarrow> None
                        | Some (n, out) \<Rightarrow> Some (n, ls @ out)))
                else duplicates_loop U data groups (duplicates_found + 1))
             else duplicates_loop U data groups duplicates_found)
      else duplicates_loop U data groups duplicates_found)"

text \<open>The summary after the loop (source lines 75 to 80).\<close>

definition duplicates_summary :: "nat \<Rightarrow> line" where
  "duplicates_summary duplicates_found =
     (if duplicates_found > 10 then MoreDuplicates (duplicates_found - 10)
      else if duplicates_found = 0 then NoDuplicates
      else FoundDuplicates duplicates_found)"

subsection \<open>Output of the inconsistent tones (source lines 83 to 111)\<close>

text \<open>The loop filling \<open>stripped_map\<close> from \<open>py_full_map.keys()\<close>.\<close>

fun stripped_map_loop :: "ucd \<Rightarrow> ustr list \<Rightarrow> (ustr, ustr) ddict \<Rightarrow> (ustr, ustr) ddict" where
  "stripped_map_loop U [] stripped_map = stripped_map"
| "stripped_map_loop U (py_full # ks) stripped_map =
     stripped_map_loop U ks
       (dd_append stripped_map (normalize_pinyin_stripped U py_full) py_full)"

text \<open>
  The loop over the chunks of one sentence (source lines 102 to 105): the value of
  \<open>sample_raw\<close> after it, which is still the empty string when no chunk matched.
  \<open>chunk.get('chinese') == ch\<close> has no default, so a missing field never matches.
\<close>

fun first_match :: "ucd \<Rightarrow> ustr \<Rightarrow> ustr \<Rightarrow> chunk list \<Rightarrow> ustr" where
  "first_match U ch fp [] = []"
| "first_match U ch fp (c # cs) =
     (if chinese c = Some ch \<and> normalize_pinyin_full U (get_pinyin c) = fp
      then get_pinyin c
      else first_match U ch fp cs)"

text \<open>The loop over \<open>indices\<close> (source lines 101 to 106), left when \<open>sample_raw\<close> is not empty.\<close>

fun sample_raw_loop :: "ucd \<Rightarrow> entry list \<Rightarrow> ustr \<Rightarrow> ustr \<Rightarrow> nat list \<Rightarrow> ustr option" where
  "sample_raw_loop U data ch fp [] = Some []"
| "sample_raw_loop U data ch fp (idx # idxs) =
     (case entry_chunks data idx of
        None \<Rightarrow> None
      | Some cs \<Rightarrow>
          if first_match U ch fp cs \<noteq> [] then Some (first_match U ch fp cs)
          else sample_raw_loop U data ch fp idxs)"

text \<open>The body of the loop over \<open>sorted(full_pinyins)\<close> (source lines 96 to 108).\<close>

definition print_variant ::
  "ucd \<Rightarrow> entry list \<Rightarrow> ustr \<Rightarrow> (ustr, nat) ddict \<Rightarrow> ustr \<Rightarrow> line option"
where
  "print_variant U data ch py_full_map fp =
     (case sample_raw_loop U data ch fp (dd_get py_full_map fp) of
        None \<Rightarrow> None
      | Some sample_raw \<Rightarrow>
          (case dd_get py_full_map fp of
             [] \<Rightarrow> None
           | i0 # _ \<Rightarrow>
               (case english_at data i0 of
                  None \<Rightarrow> None
                | Some e \<Rightarrow>
                    Some (VariantLine sample_raw (length (dd_get py_full_map fp)) e))))"

fun variants_loop ::
  "ucd \<Rightarrow> entry list \<Rightarrow> ustr \<Rightarrow> (ustr, nat) ddict \<Rightarrow> ustr list \<Rightarrow> line list option"
where
  "variants_loop U data ch py_full_map [] = Some []"
| "variants_loop U data ch py_full_map (fp # fps) =
     (case print_variant U data ch py_full_map fp of
        None \<Rightarrow> None
      | Some l \<Rightarrow>
          (case variants_loop U data ch py_full_map fps of
             None \<Rightarrow> None
           | Some ls \<Rightarrow> Some (l # ls)))"

text \<open>
  The loop over \<open>stripped_map.items()\<close> (source lines 92 to 108), threading the counter
  \<open>inconsistent_count\<close>.
\<close>

fun groups_loop ::
  "ucd \<Rightarrow> entry list \<Rightarrow> ustr \<Rightarrow> (ustr, nat) ddict \<Rightarrow> (ustr, ustr) ddict \<Rightarrow> nat
     \<Rightarrow> (nat \<times> line list) option"
where
  "groups_loop U data ch py_full_map [] inconsistent_count = Some (inconsistent_count, [])"
| "groups_loop U data ch py_full_map ((stripped, full_pinyins) # rest) inconsistent_count =
     (if length full_pinyins > 1 then
        (case variants_loop U data ch py_full_map (sort full_pinyins) of
           None \<Rightarrow> None
         | Some vs \<Rightarrow>
             (case groups_loop U data ch py_full_map rest (inconsistent_count + 1) of
                None \<Rightarrow> None
              | Some (n, out) \<Rightarrow> Some (n, ChineseLine ch # vs @ out)))
      else groups_loop U data ch py_full_map rest inconsistent_count)"

text \<open>The loop over \<open>sorted(word_map.items())\<close> (source lines 85 to 108).\<close>

fun tones_loop :: "ucd \<Rightarrow> entry list \<Rightarrow> wmap \<Rightarrow> nat \<Rightarrow> (nat \<times> line list) option" where
  "tones_loop U data [] inconsistent_count = Some (inconsistent_count, [])"
| "tones_loop U data ((ch, py_full_map) # rest) inconsistent_count =
     (if length py_full_map > 1 then
        (case groups_loop U data ch py_full_map
                (stripped_map_loop U (map fst py_full_map) []) inconsistent_count of
           None \<Rightarrow> None
         | Some (n, out) \<Rightarrow>
             (case tones_loop U data rest n of
                None \<Rightarrow> None
              | Some (n', out') \<Rightarrow> Some (n', out @ out')))
      else tones_loop U data rest inconsistent_count)"

subsection \<open>The whole run\<close>

text \<open>The two sections of the report, each from the structures of the grouping pass.\<close>

definition chinese_groups :: "ucd \<Rightarrow> entry list \<Rightarrow> (ustr, nat) ddict" where
  "chinese_groups U data = fst (scan_loop U (enumerate 0 data) [] [])"

definition word_map :: "ucd \<Rightarrow> entry list \<Rightarrow> wmap" where
  "word_map U data = snd (scan_loop U (enumerate 0 data) [] [])"

definition duplicates_section :: "ucd \<Rightarrow> entry list \<Rightarrow> line list option" where
  "duplicates_section U data =
     (case duplicates_loop U data (chinese_groups U data) 0 of
        None \<Rightarrow> None
      | Some (duplicates_found, out) \<Rightarrow> Some (out @ [duplicates_summary duplicates_found]))"

definition tones_section :: "ucd \<Rightarrow> entry list \<Rightarrow> line list option" where
  "tones_section U data =
     (case tones_loop U data (sort_key fst (word_map U data)) 0 of
        None \<Rightarrow> None
      | Some (inconsistent_count, out) \<Rightarrow>
          Some (TonesHeader # out @ (if inconsistent_count = 0 then [NoneFound] else [])))"

text \<open>The analysis of a loaded, non-empty document (source lines 35 to 111).\<close>

definition analyze :: "ucd \<Rightarrow> entry list \<Rightarrow> line list option" where
  "analyze U data =
     (case duplicates_section U data of
        None \<Rightarrow> None
      | Some ds \<Rightarrow>
          (case tones_section U data of
             None \<Rightarrow> None
           | Some ts \<Rightarrow> Some (ds @ ts)))"

text \<open>
  The file system as the checker sees it: a path does not exist, or
  \<open>yaml.safe_load\<close> raises with a message, or it returns the document. The console is
  the list of lines printed so far.
\<close>

datatype file_content = Unparseable ustr | Parsed "entry list"

record world =
  files :: "ustr \<Rightarrow> file_content option"
  console :: "line list"

definition print_lines :: "line list \<Rightarrow> world \<Rightarrow> world" where
  "print_lines ls w = w\<lparr>console := console w @ ls\<rparr>"

text \<open>
  \<open>run_sanitizer(filename)\<close> (source lines 18 to 111). The result is \<open>None\<close> when an
  exception escapes.
\<close>

definition run_sanitizer :: "ucd \<Rightarrow> ustr \<Rightarrow> world \<Rightarrow> world option" where
  "run_sanitizer U filename w =
     (case files w filename of
        None \<Rightarrow> Some (print_lines [FileNotFound filename] w)
      | Some (Unparseable e) \<Rightarrow>
          Some (print_lines [Analyzing filename, ErrorParsingYAML e] w)
      | Some (Parsed data) \<Rightarrow>
          if data = [] then Some (print_lines [Analyzing filename, EmptyFile] w)
          else (case analyze U data of
                  None \<Rightarrow> None
                | Some ls \<Rightarrow> Some (print_lines (Analyzing filename # ls) w)))"

subsection \<open>A fragment of the Unicode tables\<close>

text \<open>
  For evaluating the checker on concrete corpora: the behaviour of CPython's
  \<open>unicodedata\<close> (Unicode 14) and \<open>str.lower\<close> on strings over ASCII, the Latin
  vowels carrying a pinyin tone mark (both cases), the combining marks U+0300, U+0301,
  U+0304, U+0308 and U+030C, the CJK ideographs U+4E00 to U+9FA5, the ideographic full
  stop and fullwidth comma, and the Greek letters U+0391, U+03A3, U+03B1, U+03C2 and
  U+03C3. On any other code point the fragment says nothing about Python: there it is a
  non-letter without decomposition or case mapping.
\<close>

definition py_decomp_table :: "(nat \<times> nat list) list" where
  "py_decomp_table =
     [(192, [65, 768]), (193, [65, 769]), (200, [69, 768]), (201, [69, 769]),
      (204, [73, 768]), (205, [73, 769]), (210, [79, 768]), (211, [79, 769]),
      (217, [85, 768]), (218, [85, 769]), (220, [85, 776]), (224, [97, 768]),
      (225, [97, 769]), (232, [101, 768]), (233, [101, 769]), (236, [105, 768]),
      (237, [105, 769]), (242, [111, 768]), (243, [111, 769]), (249, [117, 768]),
      (250, [117, 769]), (252, [117, 776]), (256, [65, 772]), (257, [97, 772]),
      (274, [69, 772]), (275, [101, 772]), (282, [69, 780]), (283, [101, 780]),
      (298, [73, 772]), (299, [105, 772]), (332, [79, 772]), (333, [111, 772]),
      (362, [85, 772]), (363, [117, 772]), (461, [65, 780]), (462, [97, 780]),
      (463, [73, 780]), (464, [105, 780]), (465, [79, 780]), (466, [111, 780]),
      (467, [85, 780]), (468, [117, 780]), (469, [85, 776, 772]), (470, [117, 776, 772]),
      (471, [85, 776, 769]), (472, [117, 776, 769]), (473, [85, 776, 780]),
      (474, [117, 776, 780]), (475, [85, 776, 768]), (476, [117, 776, 768])]"

definition py_lower_table :: "(nat \<times> nat) list" where
  "py_lower_table =
     [(192, 224), (193, 225), (200, 232), (201, 233), (204, 236), (205, 237),
      (210, 242), (211, 243), (217, 249), (218, 250), (220, 252), (256, 257),
      (274, 275), (282, 283), (298, 299), (332, 333), (362, 363), (461, 462),
      (463, 464), (465, 466), (467, 468), (469, 470), (471, 472), (473, 474),
      (475, 476)]"

definition py_greek :: "nat \<Rightarrow> bool" where
  "py_greek c = (c = 913 \<or> c = 931 \<or> c = 945 \<or> c = 962 \<or> c = 963)"

definition py_cased :: "nat \<Rightarrow> bool" where
  "py_cased c =
     ((65 \<le> c \<and> c \<le> 90) \<or> (97 \<le> c \<and> c \<le> 122) \<or> map_of py_decomp_table c \<noteq> None
      \<or> py_greek c)"

definition py_letter :: "nat \<Rightarrow> bool" where
  "py_letter c = (py_cased c \<or> (19968 \<le> c \<and> c \<le> 40869))"

definition py_mark :: "nat \<Rightarrow> bool" where
  "py_mark c = (c = 768 \<or> c = 769 \<or> c = 772 \<or> c = 776 \<or> c = 780)"

definition py_case_ignorable :: "nat \<Rightarrow> bool" where
  "py_case_ignorable c = (c = 39 \<or> c = 46 \<or> c = 58 \<or> c = 94 \<or> c = 96 \<or> py_mark c)"

definition py_decomp :: "nat \<Rightarrow> nat list" where
  "py_decomp c = (case map_of py_decomp_table c of None \<Rightarrow> [c] | Some d \<Rightarrow> d)"

definition py_nfd :: "ustr \<Rightarrow> ustr" where
  "py_nfd s = concat (map py_decomp s)"

definition py_lower_cp :: "nat \<Rightarrow> nat" where
  "py_lower_cp c =
     (if 65 \<le> c \<and> c \<le> 90 then c + 32
      else case map_of py_lower_table c of
             Some l \<Rightarrow> l
           | None \<Rightarrow> if c = 913 then 945 else c)"

text \<open>
  \<open>str.lower\<close> maps U+03A3 to the final sigma U+03C2 when the nearest character before
  it that is not case-ignorable is cased, and the nearest such character after it is
  absent or not cased; to U+03C3 otherwise. The first argument is the text before the
  sigma, nearest character first.
\<close>

definition py_final_sigma :: "ustr \<Rightarrow> ustr \<Rightarrow> bool" where
  "py_final_sigma pre post =
     (case dropWhile py_case_ignorable pre of
        [] \<Rightarrow> False
      | b # _ \<Rightarrow>
          py_cased b \<and>
          (case dropWhile py_case_ignorable post of [] \<Rightarrow> True | a # _ \<Rightarrow> \<not> py_cased a))"

fun py_lower_from :: "ustr \<Rightarrow> ustr \<Rightarrow> ustr" where
  "py_lower_from pre [] = []"
| "py_lower_from pre (c # cs) =
     (if c = 931 then (if py_final_sigma pre cs then 962 else 963) else py_lower_cp c)
       # py_lower_from (c # pre) cs"

definition py_lower :: "ustr \<Rightarrow> ustr" where
  "py_lower s = py_lower_from [] s"

definition py_ucd :: ucd where
  "py_ucd = \<lparr>uc_letter = py_letter, uc_mark = py_mark, uc_nfd = py_nfd, uc_lower = py_lower\<rparr>"

subsection \<open>Notions for stating the properties\<close>

definition firsts :: "'a list \<Rightarrow> 'a list" where
  "firsts xs = rev (remdups (rev xs))"

definition dd_of :: "('k \<times> 'v) list \<Rightarrow> ('k, 'v) ddict" where
  "dd_of kvs = foldl (\<lambda>d (k, v). dd_append d k v) [] kvs"

definition vals_of :: "('k \<times> 'v) list \<Rightarrow> 'k \<Rightarrow> 'v list" where
  "vals_of kvs k = map snd (filter (\<lambda>p. fst p = k) kvs)"

definition cs_of :: "entry \<Rightarrow> chunk list" where
  "cs_of e = (case chunks e of None \<Rightarrow> [] | Some cs \<Rightarrow> cs)"

definition has_chunks :: "entry \<Rightarrow> bool" where
  "has_chunks e = (chunks e \<noteq> None)"

definition cg_pairs :: "(nat \<times> entry) list \<Rightarrow> (ustr \<times> nat) list" where
  "cg_pairs ies = map (\<lambda>(i, e). (full_chinese (cs_of e), i)) (filter (\<lambda>(i, e). has_chunks e) ies)"

definition sentence_key :: "ucd \<Rightarrow> entry \<Rightarrow> ustr" where
  "sentence_key U e = normalize_pinyin_full U (full_py (cs_of e))"

definition pinyin_map_of :: "ucd \<Rightarrow> ('v \<Rightarrow> entry) \<Rightarrow> 'v list \<Rightarrow> (ustr, 'v) ddict" where
  "pinyin_map_of U get vs = dd_of (map (\<lambda>v. (sentence_key U (get v), v)) vs)"

definition is_duplicate :: "ucd \<Rightarrow> ('v \<Rightarrow> entry) \<Rightarrow> ustr \<times> 'v list \<Rightarrow> bool" where
  "is_duplicate U get g = (length (snd g) > 1 \<and> length (pinyin_map_of U get (snd g)) = 1)"

definition english_default :: "entry \<Rightarrow> ustr" where
  "english_default e = (case english e of None \<Rightarrow> [63, 63, 63] | Some s \<Rightarrow> s)"

definition duplicate_lines :: "('v \<Rightarrow> entry) \<Rightarrow> ustr \<times> 'v list \<Rightarrow> line list" where
  "duplicate_lines get g =
     [DuplicateSentence (fst g), PinyinLine (full_py (cs_of (get (hd (snd g))))),
      EnglishLine (map (\<lambda>v. english_default (get v)) (snd g))]"

definition duplicate_groups :: "ucd \<Rightarrow> entry list \<Rightarrow> (ustr \<times> nat list) list" where
  "duplicate_groups U data = filter (is_duplicate U ((!) data)) (chinese_groups U data)"

definition valid_index :: "entry list \<Rightarrow> nat \<Rightarrow> bool" where
  "valid_index data i = (i < length data \<and> has_chunks (data ! i))"

definition group_indices :: "entry list \<Rightarrow> ustr \<Rightarrow> nat list" where
  "group_indices data ch =
     filter (\<lambda>i. valid_index data i \<and> full_chinese (cs_of (data ! i)) = ch) [0..<length data]"

definition qualifies :: "ucd \<Rightarrow> chunk \<Rightarrow> bool" where
  "qualifies U c =
     (list_ex (uc_letter U) (get_chinese c) \<and> normalize_pinyin_full U (get_pinyin c) \<noteq> [])"

definition chunk_occs :: "ucd \<Rightarrow> nat \<Rightarrow> chunk list \<Rightarrow> (ustr \<times> (ustr \<times> nat)) list" where
  "chunk_occs U i cs =
     map (\<lambda>c. (get_chinese c, (normalize_pinyin_full U (get_pinyin c), i))) (filter (qualifies U) cs)"

definition occs :: "ucd \<Rightarrow> (nat \<times> entry) list \<Rightarrow> (ustr \<times> (ustr \<times> nat)) list" where
  "occs U ies = concat (map (\<lambda>(i, e). chunk_occs U i (cs_of e)) ies)"

definition wm_of :: "(ustr \<times> (ustr \<times> 'v)) list \<Rightarrow> (ustr \<times> (ustr, 'v) ddict) list" where
  "wm_of xs = map (\<lambda>(ch, kis). (ch, dd_of kis)) (dd_of xs)"

definition stripped_map_of :: "ucd \<Rightarrow> ustr list \<Rightarrow> (ustr, ustr) ddict" where
  "stripped_map_of U ks = dd_of (map (\<lambda>k. (normalize_pinyin_stripped U k, k)) ks)"

definition sample_of :: "ucd \<Rightarrow> ('v \<Rightarrow> entry) \<Rightarrow> ustr \<Rightarrow> ustr \<Rightarrow> 'v list \<Rightarrow> ustr" where
  "sample_of U get ch fp vs =
     (case filter (\<lambda>s. s \<noteq> []) (map (\<lambda>v. first_match U ch fp (cs_of (get v))) vs) of
        [] \<Rightarrow> []
      | s # _ \<Rightarrow> s)"

definition variant_line ::
  "ucd \<Rightarrow> ('v \<Rightarrow> entry) \<Rightarrow> ustr \<Rightarrow> (ustr, 'v) ddict \<Rightarrow> ustr \<Rightarrow> line" where
  "variant_line U get ch m fp =
     VariantLine (sample_of U get ch fp (dd_get m fp)) (length (dd_get m fp))
       (english (get (hd (dd_get m fp))))"

definition tone_block ::
  "ucd \<Rightarrow> ('v \<Rightarrow> entry) \<Rightarrow> ustr \<Rightarrow> (ustr, 'v) ddict \<Rightarrow> ustr list \<Rightarrow> line list" where
  "tone_block U get ch m fps = ChineseLine ch # map (variant_line U get ch m) (sort fps)"

definition inconsistent_sets :: "ucd \<Rightarrow> (ustr, 'v) ddict \<Rightarrow> ustr list list" where
  "inconsistent_sets U m =
     (if length m > 1
      then map snd (filter (\<lambda>(s, fps). length fps > 1) (stripped_map_of U (map fst m)))
      else [])"

definition tone_lines ::
  "ucd \<Rightarrow> ('v \<Rightarrow> entry) \<Rightarrow> (ustr \<times> (ustr, 'v) ddict) list \<Rightarrow> line list" where
  "tone_lines U get W =
     concat (map (\<lambda>(ch, m). concat (map (tone_block U get ch m) (inconsistent_sets U m))) W)"

definition tone_count :: "ucd \<Rightarrow> (ustr \<times> (ustr, 'v) ddict) list \<Rightarrow> nat" where
  "tone_count U W = sum_list (map (\<lambda>(ch, m). length (inconsistent_sets U m)) W)"

definition dd_valid :: "entry list \<Rightarrow> (ustr, nat) ddict \<Rightarrow> bool" where
  "dd_valid data m =
     (\<forall>p\<in>set m. snd p \<noteq> [] \<and> dd_get m (fst p) = snd p \<and>
                  (\<forall>i\<in>set (snd p). valid_index data i))"

definition sorted_word_map :: "ucd \<Rightarrow> entry list \<Rightarrow> wmap" where
  "sorted_word_map U data = sort_key fst (word_map U data)"

subsection \<open>Concrete corpora\<close>

definition hang_chunk :: "ustr \<Rightarrow> chunk" where
  "hang_chunk p = \<lparr>chinese = Some [34892], pinyin = Some p\<rparr>"

definition hang_corpus :: "entry list" where
  "hang_corpus =
     [\<lparr>english = Some [49], chunks = Some [hang_chunk [120, 105, 110, 103]]\<rparr>,
      \<lparr>english = Some [50], chunks = Some [hang_chunk [104, 97, 110, 103]]\<rparr>]"

definition homograph_corpus :: "entry list" where
  "homograph_corpus =
     [\<lparr>english = Some [49], chunks = Some [hang_chunk [120, 105, 110, 103]]\<rparr>,
      \<lparr>english = Some [50], chunks = Some [hang_chunk [120, 105, 110, 103]]\<rparr>,
      \<lparr>english = Some [51], chunks = Some [hang_chunk [104, 97, 110, 103]]\<rparr>]"

definition twice_corpus :: "entry list" where
  "twice_corpus =
     [\<lparr>english = Some [49], chunks = Some [hang_chunk [120, 105, 110, 103]]\<rparr>,
      \<lparr>english = Some [50], chunks = Some [hang_chunk [120, 105, 110, 103]]\<rparr>]"

definition cap_entry :: "nat \<Rightarrow> entry" where
  "cap_entry n = \<lparr>english = Some [48 + n], chunks = Some [\<lparr>chinese = Some [19968 + n], pinyin = Some [97]\<rparr>]\<rparr>"

definition cap_corpus :: "entry list" where
  "cap_corpus =
     concat (map (\<lambda>n. [cap_entry n, cap_entry n]) [0, 1, 2, 3, 4, 5, 6, 7, 8, 9, 10, 11, 12, 13, 14])"

definition stop_chunk :: chunk where
  "stop_chunk = \<lparr>chinese = Some [12290], pinyin = Some [46]\<rparr>"

definition blank_chunk :: chunk where
  "blank_chunk = \<lparr>chinese = Some [34892], pinyin = Some [46, 46, 46]\<rparr>"

definition bare_entry :: entry where
  "bare_entry = \<lparr>english = Some [49], chunks = None\<rparr>"

section \<open>Properties\<close>

lemma firsts_Nil [simp]: "firsts [] = []"
  by (simp add: firsts_def)

lemma firsts_snoc: "firsts (xs @ [x]) = (if x \<in> set xs then firsts xs else firsts xs @ [x])"
  by (simp add: firsts_def)

lemma set_firsts [simp]: "set (firsts xs) = set xs"
  by (simp add: firsts_def)

lemma distinct_firsts [simp]: "distinct (firsts xs)"
  by (simp add: firsts_def)

lemma dd_of_Nil [simp]: "dd_of [] = []"
  by (simp add: dd_of_def)

lemma dd_of_snoc: "dd_of (kvs @ [(k, v)]) = dd_append (dd_of kvs) k v"
  by (simp add: dd_of_def)

lemma vals_of_snoc: "vals_of (kvs @ [(k, v)]) k' = vals_of kvs k' @ (if k = k' then [v] else [])"
  by (simp add: vals_of_def)

lemma vals_of_empty_iff: "vals_of kvs k = [] \<longleftrightarrow> k \<notin> fst ` set kvs"
  by (induction kvs) (auto simp: vals_of_def)

lemma dd_append_map:
  "distinct ks \<Longrightarrow>
   dd_append (map (\<lambda>k. (k, f k)) ks) k v =
     (if k \<in> set ks then map (\<lambda>k'. (k', if k' = k then f k' @ [v] else f k')) ks
      else map (\<lambda>k. (k, f k)) ks @ [(k, [v])])"
  by (induction ks) auto

lemma dd_of_closed: "dd_of kvs = map (\<lambda>k. (k, vals_of kvs k)) (firsts (map fst kvs))"
proof (induction kvs rule: rev_induct)
  case Nil
  show ?case by simp
next
  case (snoc kv kvs)
  obtain k v where kv: "kv = (k, v)" by (cases kv)
  show ?case
  proof (cases "k \<in> fst ` set kvs")
    case True
    then show ?thesis
      using snoc by (simp add: kv dd_of_snoc dd_append_map firsts_snoc vals_of_snoc)
  next
    case False
    then have "vals_of kvs k = []" by (simp add: vals_of_empty_iff)
    with False show ?thesis
      using snoc by (auto simp add: kv dd_of_snoc dd_append_map firsts_snoc vals_of_snoc)
  qed
qed

lemma dd_of_keys: "map fst (dd_of kvs) = firsts (map fst kvs)"
  by (simp add: dd_of_closed comp_def)

lemma dd_of_distinct: "distinct (map fst (dd_of kvs))"
  by (simp add: dd_of_keys)

lemma dd_of_mem:
  "(k, vs) \<in> set (dd_of kvs) \<longleftrightarrow> k \<in> fst ` set kvs \<and> vs = vals_of kvs k"
  by (auto simp: dd_of_closed)

lemma dd_get_map: "dd_get (map (\<lambda>k. (k, f k)) ks) k = (if k \<in> set ks then f k else [])"
  by (induction ks) auto

lemma dd_get_dd_of: "dd_get (dd_of kvs) k = vals_of kvs k"
  using vals_of_empty_iff[of kvs k] by (auto simp: dd_of_closed dd_get_map)

lemma dd_of_map_values:
  "dd_of (map (\<lambda>(k, v). (k, f v)) kvs) = map (\<lambda>(k, vs). (k, map f vs)) (dd_of kvs)"
proof -
  have 1: "map fst (map (\<lambda>(k, v). (k, f v)) kvs) = map fst kvs"
    by (induction kvs) auto
  have 2: "vals_of (map (\<lambda>(k, v). (k, f v)) kvs) k = map f (vals_of kvs k)" for k
    by (induction kvs) (auto simp: vals_of_def)
  have "dd_of (map (\<lambda>(k, v). (k, f v)) kvs) =
          map (\<lambda>k. (k, map f (vals_of kvs k))) (firsts (map fst kvs))"
    unfolding dd_of_closed 1 2 ..
  then show ?thesis by (simp add: dd_of_closed comp_def)
qed

lemma foldl_dd_append_dd_of:
  "foldl (\<lambda>d (k, v). dd_append d k v) (dd_of xs) ys = dd_of (xs @ ys)"
  by (simp add: dd_of_def)

lemma scan_loop_fst:
  "fst (scan_loop U ies cg wm) = foldl (\<lambda>d (k, v). dd_append d k v) cg (cg_pairs ies)"
  by (induction ies arbitrary: cg wm)
     (auto simp: cg_pairs_def cs_of_def has_chunks_def split: option.splits)

lemma chinese_groups_dd_of: "chinese_groups U data = dd_of (cg_pairs (enumerate 0 data))"
  by (simp add: chinese_groups_def scan_loop_fst dd_of_def)

lemma enumerate_nth: "enumerate 0 xs = map (\<lambda>i. (i, xs ! i)) [0..<length xs]"
  by (rule nth_equalityI) (simp_all add: enumerate_eq_zip)

lemma cg_pairs_enumerate:
  "cg_pairs (enumerate 0 data) =
     map (\<lambda>i. (full_chinese (cs_of (data ! i)), i)) (filter (valid_index data) [0..<length data])"
proof -
  have "filter (\<lambda>i. has_chunks (data ! i)) [0..<length data] =
        filter (valid_index data) [0..<length data]"
    by (rule filter_cong) (auto simp: valid_index_def)
  then have "filter (\<lambda>(i, e). has_chunks e) (map (\<lambda>i. (i, data ! i)) [0..<length data]) = 
        map (\<lambda>i. (i, data ! i)) (filter (valid_index data) [0..<length data])"
    by (simp add: filter_map comp_def)
  then show ?thesis
    by (simp add: cg_pairs_def enumerate_nth comp_def del: upt_Suc)
qed

lemma vals_of_cg_pairs: "vals_of (cg_pairs (enumerate 0 data)) ch = group_indices data ch"
  unfolding cg_pairs_enumerate vals_of_def group_indices_def
  by (simp add: filter_map comp_def del: upt_Suc) 

lemma chinese_groups_mem:
  "(ch, idxs) \<in> set (chinese_groups U data) \<longleftrightarrow> idxs = group_indices data ch \<and> idxs \<noteq> []"
proof -
  have "ch \<in> fst ` set (cg_pairs (enumerate 0 data)) \<longleftrightarrow> group_indices data ch \<noteq> []"
    using vals_of_empty_iff[of "cg_pairs (enumerate 0 data)" ch] by (simp add: vals_of_cg_pairs)
  then show ?thesis
    by (auto simp: chinese_groups_dd_of dd_of_mem vals_of_cg_pairs)
qed

lemma group_indices_valid: "i \<in> set (group_indices data ch) \<Longrightarrow> valid_index data i"
  by (simp add: group_indices_def)

lemma chinese_groups_valid:
  "(ch, idxs) \<in> set (chinese_groups U data) \<Longrightarrow> i \<in> set idxs \<Longrightarrow> valid_index data i"
  by (auto simp: chinese_groups_mem dest: group_indices_valid)

lemma entry_chunks_valid: "valid_index data i \<Longrightarrow> entry_chunks data i = Some (cs_of (data ! i))"
  by (auto simp: valid_index_def entry_chunks_def cs_of_def has_chunks_def)

lemma pinyin_map_loop_valid:
  "\<forall>i\<in>set idxs. valid_index data i \<Longrightarrow>
   pinyin_map_loop U data idxs pm =
     Some (foldl (\<lambda>d (k, v). dd_append d k v) pm (map (\<lambda>i. (sentence_key U (data ! i), i)) idxs))"
  by (induction idxs arbitrary: pm) (simp_all add: entry_chunks_valid sentence_key_def)

lemma pinyin_map_loop_eq:
  "\<forall>i\<in>set idxs. valid_index data i \<Longrightarrow>
   pinyin_map_loop U data idxs [] = Some (pinyin_map_of U ((!) data) idxs)"
  by (simp add: pinyin_map_loop_valid pinyin_map_of_def dd_of_def)

lemma english_list_valid:
  "\<forall>i\<in>set idxs. valid_index data i \<Longrightarrow>
   english_list data idxs = Some (map (\<lambda>i. english_default (data ! i)) idxs)"
  by (induction idxs) (simp_all add: english_or_unknown_def valid_index_def english_default_def)

lemma print_duplicate_valid:
  "\<forall>i\<in>set idxs. valid_index data i \<Longrightarrow> idxs \<noteq> [] \<Longrightarrow>
   print_duplicate data ch idxs = Some (duplicate_lines ((!) data) (ch, idxs))"
  using english_list_valid[of idxs data]
  by (cases idxs) (simp_all add: print_duplicate_def entry_chunks_valid duplicate_lines_def)

lemma duplicates_loop_closed:
  "\<forall>(ch, idxs)\<in>set groups. \<forall>i\<in>set idxs. valid_index data i \<Longrightarrow>
   duplicates_loop U data groups n =
     Some (n + length (filter (is_duplicate U ((!) data)) groups),
           concat (map (duplicate_lines ((!) data))
                    (take (10 - n) (filter (is_duplicate U ((!) data)) groups))))"
proof (induction groups arbitrary: n)
  case Nil
  show ?case by simp
next
  case (Cons g groups)
  obtain ch idxs where g: "g = (ch, idxs)" by (cases g)
  from Cons.prems have v: "\<forall>i\<in>set idxs. valid_index data i"
    and rest: "\<forall>(ch, idxs)\<in>set groups. \<forall>i\<in>set idxs. valid_index data i"
    by (auto simp: g)
  note IH = Cons.IH[OF rest]
  show ?case
  proof (cases "is_duplicate U ((!) data) (ch, idxs)")
    case True
    then have ne: "idxs \<noteq> []" and l: "length idxs > 1"
      and pm: "length (pinyin_map_of U ((!) data) idxs) = 1"
      by (auto simp: is_duplicate_def)
    show ?thesis
    proof (cases "n < 10")
      case True
      then obtain m where m: "10 - n = Suc m" "10 - (n + 1) = m" 
        by (cases "10 - n") auto
      with True \<open>is_duplicate U ((!) data) (ch, idxs)\<close> l show ?thesis
        by (simp add: g pm pinyin_map_loop_eq[OF v] print_duplicate_valid[OF v ne] IH)
    next
      case False
      with \<open>is_duplicate U ((!) data) (ch, idxs)\<close> l show ?thesis
        by (simp add: g pm pinyin_map_loop_eq[OF v] IH)
    qed
  next
    case False
    then show ?thesis
      by (auto simp: g is_duplicate_def pinyin_map_loop_eq[OF v] IH)
  qed
qed

lemma duplicates_section_closed:
  "duplicates_section U data =
     Some (concat (map (duplicate_lines ((!) data)) (take 10 (duplicate_groups U data)))
           @ [duplicates_summary (length (duplicate_groups U data))])"
proof -
  have "\<forall>(ch, idxs)\<in>set (chinese_groups U data). \<forall>i\<in>set idxs. valid_index data i"
    using chinese_groups_valid by blast
  from duplicates_loop_closed[OF this, of U 0] show ?thesis
    by (simp add: duplicates_section_def duplicate_groups_def)
qed

lemma length_dd_of_one:
  "length (dd_of kvs) = Suc 0 \<longleftrightarrow> kvs \<noteq> [] \<and> (\<forall>p\<in>set kvs. \<forall>q\<in>set kvs. fst p = fst q)"
proof -
  have len: "length (dd_of kvs) = card (fst ` set kvs)"
    using distinct_card[of "firsts (map fst kvs)"]
    by (simp add: dd_of_closed)
  show ?thesis
  proof
    assume "length (dd_of kvs) = Suc 0"
    then have "card (fst ` set kvs) = 1" by (simp add: len)
    then obtain x where x: "fst ` set kvs = {x}" by (rule card_1_singletonE)
    have "fst p = x" if "p \<in> set kvs" for p
    proof -
      from that have "fst p \<in> fst ` set kvs" by (rule imageI)
      then show ?thesis by (simp add: x)
    qed
    moreover from x have "kvs \<noteq> []" by auto
    ultimately show "kvs \<noteq> [] \<and> (\<forall>p\<in>set kvs. \<forall>q\<in>set kvs. fst p = fst q)"
      by simp
  next
    assume a: "kvs \<noteq> [] \<and> (\<forall>p\<in>set kvs. \<forall>q\<in>set kvs. fst p = fst q)"
    then have "hd kvs \<in> set kvs" by simp
    then obtain p where p: "p \<in> set kvs" ..
    have "fst q = fst p" if "q \<in> set kvs" for q
      using a p that by blast
    then have "fst ` set kvs \<subseteq> {fst p}" by blast
    moreover have "fst p \<in> fst ` set kvs" using p by (rule imageI)
    ultimately have "fst ` set kvs = {fst p}" by blast
    then show "length (dd_of kvs) = Suc 0" by (simp add: len)
  qed
qed

lemma is_duplicate_iff:
  "is_duplicate U get (ch, vs) \<longleftrightarrow>
     length vs > 1 \<and> (\<forall>v\<in>set vs. \<forall>w\<in>set vs. sentence_key U (get v) = sentence_key U (get w))"
proof -
  have "length vs > 1 \<Longrightarrow> vs \<noteq> []" by auto
  then show ?thesis
    unfolding is_duplicate_def pinyin_map_of_def
    by (auto simp: length_dd_of_one)
qed

lemma group_indices_mem:
  "i \<in> set (group_indices data ch) \<longleftrightarrow> valid_index data i \<and> full_chinese (cs_of (data ! i)) = ch"
  by (auto simp: group_indices_def valid_index_def)

lemma distinct_group_indices: "distinct (group_indices data ch)"
  by (simp add: group_indices_def)

lemma duplicate_groups_mem:
  "(ch, idxs) \<in> set (duplicate_groups U data) \<longleftrightarrow>
     idxs = group_indices data ch \<and> length idxs > 1 \<and>
     (\<forall>v\<in>set idxs. \<forall>w\<in>set idxs. sentence_key U (data ! v) = sentence_key U (data ! w))"
proof -
  have "length idxs > 1 \<Longrightarrow> idxs \<noteq> []" by auto
  then show ?thesis
    unfolding duplicate_groups_def set_filter mem_Collect_eq chinese_groups_mem is_duplicate_iff
    by blast
qed

lemma length_gt1_distinct:
  assumes "distinct xs"
  shows "length xs > 1 \<longleftrightarrow> (\<exists>a\<in>set xs. \<exists>b\<in>set xs. a \<noteq> b)"
proof (cases xs)
  case Nil
  then show ?thesis by simp
next
  case (Cons a ys)
  show ?thesis
  proof (cases ys)
    case Nil
    with Cons show ?thesis by simp
  next
    case (Cons b zs)
    with \<open>xs = a # ys\<close> assms have "a \<noteq> b" by auto
    with Cons \<open>xs = a # ys\<close> show ?thesis by auto
  qed
qed

lemmas py_eval =
  py_ucd_def normalize_pinyin_full_def normalize_pinyin_stripped_def strip_tones_def
  py_letter_def py_cased_def py_greek_def py_mark_def py_case_ignorable_def
  py_lower_def py_lower_cp_def py_lower_table_def py_decomp_table_def py_decomp_def
  py_nfd_def py_final_sigma_def
  full_py_def get_pinyin_def full_chinese_def get_chinese_def

lemma k1: "normalize_pinyin_full py_ucd [120, 105, 110, 103] = [120, 105, 110, 103]"
  by (simp add: py_eval)

lemma k2: "normalize_pinyin_full py_ucd [104, 97, 110, 103] = [104, 97, 110, 103]"
  by (simp add: py_eval)

lemmas run_eval =
  chinese_groups_def word_map_def duplicates_section_def tones_section_def analyze_def
  duplicate_groups_def is_duplicate_def pinyin_map_of_def dd_of_def sentence_key_def cs_of_def
  enumerate_simps entry_chunks_def english_or_unknown_def english_at_def print_duplicate_def
  print_variant_def duplicates_summary_def hang_chunk_def

lemma cg_h: "chinese_groups py_ucd homograph_corpus = [([34892], [0, 1, 2])]"
  by (simp add: homograph_corpus_def run_eval py_eval)

lemma key_xing:
  "sentence_key py_ucd \<lparr>english = e, chunks = Some [hang_chunk [120, 105, 110, 103]]\<rparr> = [120, 105, 110, 103]"
  by (simp add: sentence_key_def cs_of_def full_py_def get_pinyin_def hang_chunk_def k1)

lemma key_hang:
  "sentence_key py_ucd \<lparr>english = e, chunks = Some [hang_chunk [104, 97, 110, 103]]\<rparr> = [104, 97, 110, 103]"
  by (simp add: sentence_key_def cs_of_def full_py_def get_pinyin_def hang_chunk_def k2)

lemma dg_h: "duplicate_groups py_ucd homograph_corpus = []"
  unfolding duplicate_groups_def cg_h
  by (simp add: is_duplicate_def pinyin_map_of_def dd_of_def homograph_corpus_def key_xing key_hang)

lemma cg_t: "chinese_groups py_ucd twice_corpus = [([34892], [0, 1])]"
  by (simp add: twice_corpus_def run_eval py_eval)

lemma dg_t: "duplicate_groups py_ucd twice_corpus = [([34892], [0, 1])]"
  unfolding duplicate_groups_def cg_t
  by (simp add: is_duplicate_def pinyin_map_of_def dd_of_def twice_corpus_def key_xing)

lemma firsts_cg:
  "map fst (chinese_groups U data) =
     firsts (map (\<lambda>i. full_chinese (cs_of (data ! i))) (filter (valid_index data) [0..<length data]))"
  by (simp add: chinese_groups_dd_of dd_of_keys cg_pairs_enumerate comp_def)

lemma cap_key: "sentence_key py_ucd (cap_entry n) = [97]"
  by (simp add: sentence_key_def cs_of_def cap_entry_def full_py_def get_pinyin_def py_eval)

lemma cap_fc: "full_chinese (cs_of (cap_entry n)) = [19968 + n]"
  by (simp add: cs_of_def cap_entry_def full_chinese_def get_chinese_def)

lemma cap_hc: "has_chunks (cap_entry n)"
  by (simp add: cap_entry_def has_chunks_def)

lemma cap_dg: "length (duplicate_groups py_ucd cap_corpus) = 15"
  unfolding duplicate_groups_def chinese_groups_dd_of cap_corpus_def
  by (simp add: enumerate_simps cg_pairs_def cap_hc cap_fc dd_of_def is_duplicate_def
        pinyin_map_of_def cap_key)

lemma chunk_loop_foldl:
  "chunk_loop U i cs w = foldl (\<lambda>w (ch, k, i). wm_append w ch k i) w (chunk_occs U i cs)"
  by (induction cs arbitrary: w) (simp_all add: chunk_occs_def qualifies_def)

lemma scan_loop_snd:
  "snd (scan_loop U ies cg wm) = foldl (\<lambda>w (ch, k, i). wm_append w ch k i) wm (occs U ies)"
  by (induction ies arbitrary: cg wm)
     (auto simp: occs_def cs_of_def chunk_loop_foldl chunk_occs_def split: option.splits)

lemma wm_append_wm_of:
  "wm_append (map (\<lambda>(ch, kis). (ch, dd_of kis)) D) ch k i =
     map (\<lambda>(ch, kis). (ch, dd_of kis)) (dd_append D ch (k, i))"
  by (induction D) (auto simp: dd_of_snoc dd_of_def)

lemma foldl_wm_append:
  "foldl (\<lambda>w (ch, k, i). wm_append w ch k i) [] xs = wm_of xs"
proof (induction xs rule: rev_induct)
  case Nil
  show ?case by (simp add: wm_of_def)
next
  case (snoc x xs)
  obtain ch k i where x: "x = (ch, k, i)" by (cases x)
  show ?case
    using snoc by (simp add: x wm_of_def wm_append_wm_of dd_of_snoc)
qed

lemma word_map_wm_of: "word_map U data = wm_of (occs U (enumerate 0 data))"
  by (simp add: word_map_def scan_loop_snd foldl_wm_append)

lemma stripped_map_loop_foldl:
  "stripped_map_loop U ks sm =
     foldl (\<lambda>d (k, v). dd_append d k v) sm (map (\<lambda>k. (normalize_pinyin_stripped U k, k)) ks)"
  by (induction ks arbitrary: sm) simp_all

lemma stripped_map_loop_eq: "stripped_map_loop U ks [] = stripped_map_of U ks"
  by (simp add: stripped_map_loop_foldl stripped_map_of_def dd_of_def)

lemma sample_raw_loop_valid:
  "\<forall>i\<in>set idxs. valid_index data i \<Longrightarrow>
   sample_raw_loop U data ch fp idxs = Some (sample_of U ((!) data) ch fp idxs)"
  by (induction idxs) (simp_all add: sample_of_def entry_chunks_valid)

lemma print_variant_valid:
  assumes "idxs \<noteq> []" and "dd_get m fp = idxs" and "\<forall>i\<in>set idxs. valid_index data i"
  shows "print_variant U data ch m fp = Some (variant_line U ((!) data) ch m fp)"
proof -
  obtain i0 rest where idxs: "idxs = i0 # rest" using assms(1) by (cases idxs) auto
  with assms(3) have i0: "i0 < length data" by (simp add: valid_index_def)
  have sr: "sample_raw_loop U data ch fp idxs = Some (sample_of U ((!) data) ch fp idxs)"
    using assms(3) by (rule sample_raw_loop_valid)
  have hd: "hd idxs = i0" by (simp add: idxs)
  show ?thesis
    unfolding print_variant_def variant_line_def assms(2) sr
    by (simp add: idxs english_at_def i0)
qed

lemma variants_loop_valid:
  assumes "dd_valid data m" and "set fps \<subseteq> fst ` set m"
  shows "variants_loop U data ch m fps = Some (map (variant_line U ((!) data) ch m) fps)"
  using assms(2)
proof (induction fps)
  case Nil
  show ?case by simp
next
  case (Cons fp fps)
  from Cons.prems have "fp \<in> fst ` set m" and sub: "set fps \<subseteq> fst ` set m"
    by simp_all
  then obtain p where p: "p \<in> set m" and fp: "fp = fst p" by blast
  from assms(1) p have "snd p \<noteq> [] \<and> dd_get m (fst p) = snd p \<and>
      (\<forall>i\<in>set (snd p). valid_index data i)"
    unfolding dd_valid_def by (rule bspec)
  then have "print_variant U data ch m fp = Some (variant_line U ((!) data) ch m fp)"
    unfolding fp by (intro print_variant_valid[of "snd p"]) simp_all
  with Cons.IH[OF sub] show ?case by simp
qed

lemma groups_loop_valid:
  assumes "dd_valid data m" and "\<forall>x\<in>set sm. set (snd x) \<subseteq> fst ` set m"
  shows "groups_loop U data ch m sm n =
     Some (n + length (filter (\<lambda>x. length (snd x) > 1) sm),
           concat (map (tone_block U ((!) data) ch m)
                    (map snd (filter (\<lambda>x. length (snd x) > 1) sm))))"
  using assms(2)
proof (induction sm arbitrary: n)
  case Nil
  show ?case by simp
next
  case (Cons x sm)
  obtain s fps where x: "x = (s, fps)" by (cases x)
  from Cons.prems have "set fps \<subseteq> fst ` set m"
    and rest: "\<forall>x\<in>set sm. set (snd x) \<subseteq> fst ` set m"
    by (simp_all add: x)
  then have sub: "set (sort fps) \<subseteq> fst ` set m" by simp
  note IH = Cons.IH[OF rest]
  note vl = variants_loop_valid[OF assms(1) sub, of U ch]
  show ?case
  proof (cases "length fps > 1")
    case True
    then show ?thesis by (simp add: x IH vl tone_block_def)
  next
    case False
    then show ?thesis by (simp add: x IH)
  qed
qed

lemma stripped_map_of_subset:
  assumes "x \<in> set (stripped_map_of U ks)"
  shows "set (snd x) \<subseteq> set ks"
proof -
  obtain s fps where x: "x = (s, fps)" by (cases x)
  from assms have "fps = vals_of (map (\<lambda>k. (normalize_pinyin_stripped U k, k)) ks) s"
    unfolding x stripped_map_of_def dd_of_mem by simp
  then show ?thesis by (auto simp: x vals_of_def)
qed

lemma inconsistent_sets_alt:
  "inconsistent_sets U m =
     (if length m > 1
      then map snd (filter (\<lambda>x. length (snd x) > 1) (stripped_map_of U (map fst m)))
      else [])"
  by (simp add: inconsistent_sets_def case_prod_unfold)

lemma tones_loop_valid:
  assumes "\<forall>x\<in>set W. dd_valid data (snd x)"
  shows "tones_loop U data W n = Some (n + tone_count U W, tone_lines U ((!) data) W)"
  using assms
proof (induction W arbitrary: n)
  case Nil
  show ?case by (simp add: tone_count_def tone_lines_def)
next
  case (Cons x W)
  obtain ch m where x: "x = (ch, m)" by (cases x)
  from Cons.prems have v: "dd_valid data m" and rest: "\<forall>x\<in>set W. dd_valid data (snd x)"
    by (simp_all add: x)
  note IH = Cons.IH[OF rest]
  have sub: "\<forall>x\<in>set (stripped_map_of U (map fst m)). set (snd x) \<subseteq> fst ` set m"
    using stripped_map_of_subset[of _ U "map fst m"] by simp
  note gl = groups_loop_valid[OF v sub, of U ch]
  have tc: "tone_count U ((ch, m) # W) = length (inconsistent_sets U m) + tone_count U W"
    by (simp add: tone_count_def)
  have tl: "tone_lines U ((!) data) ((ch, m) # W) =
      concat (map (tone_block U ((!) data) ch m) (inconsistent_sets U m)) @ tone_lines U ((!) data) W"
    by (simp add: tone_lines_def)
  show ?case
  proof (cases "length m > 1")
    case True
    then show ?thesis
      unfolding x tc tl by (simp add: IH stripped_map_loop_eq gl inconsistent_sets_alt)
  next
    case False
    then show ?thesis
      unfolding x tc tl by (simp add: IH inconsistent_sets_alt)
  qed
qed

lemma vals_of_mem: "v \<in> set (vals_of kvs k) \<longleftrightarrow> (k, v) \<in> set kvs"
  by (induction kvs) (auto simp: vals_of_def)

lemma dd_valid_dd_of:
  assumes "\<forall>p\<in>set kis. valid_index data (snd p)"
  shows "dd_valid data (dd_of kis)"
  unfolding dd_valid_def
proof (intro ballI conjI)
  fix p assume p: "p \<in> set (dd_of kis)"
  obtain k vs where pk: "p = (k, vs)" by (cases p)
  from p have k: "k \<in> fst ` set kis" and vs: "vs = vals_of kis k"
    unfolding pk dd_of_mem by simp_all
  from k show "snd p \<noteq> []"
    unfolding pk snd_conv vs vals_of_empty_iff by simp
  show "dd_get (dd_of kis) (fst p) = snd p"
    by (simp add: pk dd_get_dd_of vs)
  fix i assume "i \<in> set (snd p)"
  then have "(k, i) \<in> set kis" by (simp add: pk vs vals_of_mem)
  with assms show "valid_index data i" by force
qed

lemma occs_enumerate:
  "occs U (enumerate 0 data) =
     concat (map (\<lambda>i. chunk_occs U i (cs_of (data ! i))) [0..<length data])"
  by (simp add: occs_def enumerate_nth comp_def del: upt_Suc)

lemma occs_mem:
  "(ch, k, i) \<in> set (occs U (enumerate 0 data)) \<longleftrightarrow>
     i < length data \<and>
     (\<exists>c\<in>set (cs_of (data ! i)). qualifies U c \<and> get_chinese c = ch \<and>
        normalize_pinyin_full U (get_pinyin c) = k)"
  unfolding occs_enumerate by (auto simp: chunk_occs_def)

lemma cs_of_nonempty_valid: "i < length data \<Longrightarrow> c \<in> set (cs_of (data ! i)) \<Longrightarrow> valid_index data i"
  by (cases "chunks (data ! i)") (simp_all add: valid_index_def has_chunks_def cs_of_def)

lemma occs_valid: "(ch, k, i) \<in> set (occs U (enumerate 0 data)) \<Longrightarrow> valid_index data i"
  unfolding occs_mem using cs_of_nonempty_valid by blast

lemma wm_of_mem:
  "(ch, m) \<in> set (wm_of xs) \<longleftrightarrow> ch \<in> fst ` set xs \<and> m = dd_of (vals_of xs ch)"
proof
  assume "(ch, m) \<in> set (wm_of xs)"
  then obtain kis where "(ch, kis) \<in> set (dd_of xs)" and "m = dd_of kis"
    unfolding wm_of_def by auto
  then show "ch \<in> fst ` set xs \<and> m = dd_of (vals_of xs ch)"
    unfolding dd_of_mem by simp
next
  assume "ch \<in> fst ` set xs \<and> m = dd_of (vals_of xs ch)"
  then have "(ch, vals_of xs ch) \<in> set (dd_of xs)" and m: "m = dd_of (vals_of xs ch)"
    unfolding dd_of_mem by simp_all
  then have "(\<lambda>(ch, kis). (ch, dd_of kis)) (ch, vals_of xs ch) \<in> set (wm_of xs)"
    unfolding wm_of_def set_map by (intro imageI)
  then show "(ch, m) \<in> set (wm_of xs)" by (simp add: m)
qed

lemma word_map_valid:
  assumes "x \<in> set (word_map U data)"
  shows "dd_valid data (snd x)"
proof -
  obtain ch m where x: "x = (ch, m)" by (cases x)
  from assms have m: "m = dd_of (vals_of (occs U (enumerate 0 data)) ch)"
    unfolding x word_map_wm_of wm_of_mem by simp
  have "\<forall>p\<in>set (vals_of (occs U (enumerate 0 data)) ch). valid_index data (snd p)"
  proof
    fix p assume "p \<in> set (vals_of (occs U (enumerate 0 data)) ch)"
    then have "(ch, fst p, snd p) \<in> set (occs U (enumerate 0 data))"
      by (simp add: vals_of_mem)
    then show "valid_index data (snd p)" by (rule occs_valid)
  qed
  then show ?thesis unfolding x snd_conv m by (rule dd_valid_dd_of)
qed

lemma tones_section_closed:
  "tones_section U data =
     Some (TonesHeader # tone_lines U ((!) data) (sorted_word_map U data)
           @ (if tone_count U (sorted_word_map U data) = 0 then [NoneFound] else []))"
proof -
  have "\<forall>x\<in>set (sort_key fst (word_map U data)). dd_valid data (snd x)"
    using word_map_valid by simp
  from tones_loop_valid[OF this, of U 0] show ?thesis
    by (simp add: tones_section_def sorted_word_map_def)
qed

lemma analyze_closed:
  "analyze U data =
     Some (concat (map (duplicate_lines ((!) data)) (take 10 (duplicate_groups U data)))
           @ [duplicates_summary (length (duplicate_groups U data))]
           @ TonesHeader # tone_lines U ((!) data) (sorted_word_map U data)
           @ (if tone_count U (sorted_word_map U data) = 0 then [NoneFound] else []))"
  by (simp add: analyze_def duplicates_section_closed tones_section_closed)

lemma word_map_key_mem:
  assumes "(ch, m) \<in> set (word_map U data)"
  shows "fp \<in> fst ` set m \<longleftrightarrow> (\<exists>i. (ch, fp, i) \<in> set (occs U (enumerate 0 data)))"
proof -
  from assms have m: "m = dd_of (vals_of (occs U (enumerate 0 data)) ch)"
    unfolding word_map_wm_of wm_of_mem by simp
  have "fst ` set m = fst ` set (vals_of (occs U (enumerate 0 data)) ch)"
    using dd_of_keys[of "vals_of (occs U (enumerate 0 data)) ch"]
    by (metis m set_firsts set_map)
  moreover have "fp \<in> fst ` set (vals_of (occs U (enumerate 0 data)) ch) \<longleftrightarrow>
      (\<exists>i. (fp, i) \<in> set (vals_of (occs U (enumerate 0 data)) ch))"
    by force
  ultimately show ?thesis
    by (simp add: vals_of_mem)
qed

lemma word_map_recorded:
  assumes "(ch, m) \<in> set (word_map U data)" and "fp \<in> fst ` set m"
  shows "list_ex (uc_letter U) ch \<and> fp \<noteq> []"
proof -
  from assms obtain i where "(ch, fp, i) \<in> set (occs U (enumerate 0 data))"
    using word_map_key_mem by blast
  then show ?thesis
    unfolding occs_mem qualifies_def by blast
qed

lemma first_match_skip:
  assumes "\<not> (chinese c = Some ch \<and> normalize_pinyin_full U (get_pinyin c) = fp)"
  shows "first_match U ch fp (cs @ c # cs') = first_match U ch fp (cs @ cs')"
  using assms by (induction cs) auto

lemma unqualified_no_match:
  assumes "\<not> qualifies U c" and "list_ex (uc_letter U) ch" and "fp \<noteq> []"
  shows "\<not> (chinese c = Some ch \<and> normalize_pinyin_full U (get_pinyin c) = fp)"
  using assms by (auto simp: qualifies_def get_chinese_def)

lemma chunk_occs_skip:
  "\<not> qualifies U c \<Longrightarrow> chunk_occs U i (cs @ c # cs') = chunk_occs U i (cs @ cs')"
  by (simp add: chunk_occs_def)

lemma sample_of_cong:
  assumes "\<And>v. v \<in> set vs \<Longrightarrow> first_match U ch fp (cs_of (g v)) = first_match U ch fp (cs_of (g' v))"
  shows "sample_of U g ch fp vs = sample_of U g' ch fp vs"
proof -
  have eq: "map (\<lambda>v. first_match U ch fp (cs_of (g v))) vs = map (\<lambda>v. first_match U ch fp (cs_of (g' v))) vs"
    by (rule map_cong[OF refl]) (rule assms)
  show ?thesis unfolding sample_of_def eq ..
qed

lemma variant_line_cong:
  assumes "\<And>v. first_match U ch fp (cs_of (g v)) = first_match U ch fp (cs_of (g' v))"
    and "\<And>v. english (g v) = english (g' v)"
  shows "variant_line U g ch m fp = variant_line U g' ch m fp"
  unfolding variant_line_def
  using sample_of_cong[of "dd_get m fp" U ch fp g g'] assms by simp

lemma tone_block_cong:
  assumes "\<And>fp v. fp \<in> set fps \<Longrightarrow>
              first_match U ch fp (cs_of (g v)) = first_match U ch fp (cs_of (g' v))"
    and "\<And>v. english (g v) = english (g' v)"
  shows "tone_block U g ch m fps = tone_block U g' ch m fps"
  unfolding tone_block_def
  using variant_line_cong[of U ch _ g g' m] assms by simp

lemma inconsistent_sets_subset:
  assumes "fps \<in> set (inconsistent_sets U m)" shows "set fps \<subseteq> fst ` set m"
proof -
  from assms obtain x where "x \<in> set (stripped_map_of U (map fst m))" and "fps = snd x"
    unfolding inconsistent_sets_alt by (auto split: if_splits)
  with stripped_map_of_subset[of x U "map fst m"] show ?thesis by simp
qed

lemma tone_lines_cong:
  assumes "\<And>ch m fp v. (ch, m) \<in> set W \<Longrightarrow> fp \<in> fst ` set m \<Longrightarrow>
              first_match U ch fp (cs_of (g v)) = first_match U ch fp (cs_of (g' v))"
    and "\<And>v. english (g v) = english (g' v)"
  shows "tone_lines U g W = tone_lines U g' W"
proof -
  have "concat (map (tone_block U g ch m) (inconsistent_sets U m)) =
        concat (map (tone_block U g' ch m) (inconsistent_sets U m))"
    if "(ch, m) \<in> set W" for ch m
  proof -
    have "tone_block U g ch m fps = tone_block U g' ch m fps"
      if "fps \<in> set (inconsistent_sets U m)" for fps
    proof (rule tone_block_cong)
      fix fp v assume "fp \<in> set fps"
      with inconsistent_sets_subset[OF that] have "fp \<in> fst ` set m" by blast
      with assms(1) \<open>(ch, m) \<in> set W\<close>
      show "first_match U ch fp (cs_of (g v)) = first_match U ch fp (cs_of (g' v))" by blast
    next
      fix v show "english (g v) = english (g' v)" by (rule assms(2))
    qed
    then have eq: "map (tone_block U g ch m) (inconsistent_sets U m) =
               map (tone_block U g' ch m) (inconsistent_sets U m)"
      by (intro map_cong[OF refl])
    show ?thesis unfolding eq ..
  qed
  then have eq: "map (\<lambda>(ch, m). concat (map (tone_block U g ch m) (inconsistent_sets U m))) W =
             map (\<lambda>(ch, m). concat (map (tone_block U g' ch m) (inconsistent_sets U m))) W"
    by (intro map_cong[OF refl]) auto
  show ?thesis unfolding tone_lines_def eq ..
qed

lemma nth_middle_cases:
  "(xs @ e # ys) ! v = (if v < length xs then xs ! v else if v = length xs then e else ys ! (v - Suc (length xs)))"
proof (cases "v < length xs")
  case True
  then show ?thesis by (simp add: nth_append)
next
  case False
  show ?thesis
  proof (cases "v - length xs")
    case 0
    with False have "v = length xs" by arith
    then show ?thesis by simp
  next
    case (Suc n)
    with False have "v \<noteq> length xs" and "v - Suc (length xs) = n" by arith+
    with False Suc show ?thesis by (simp add: nth_append)
  qed
qed

lemma tones_section_skip:
  assumes nq: "\<not> qualifies U c"
  shows "tones_section U (xs @ e\<lparr>chunks := Some (cs @ c # cs')\<rparr> # ys) =
         tones_section U (xs @ e\<lparr>chunks := Some (cs @ cs')\<rparr> # ys)"
    (is "tones_section U ?d = tones_section U ?d'")
proof -
  have same: "?d ! v = ?d' ! v" if "v \<noteq> length xs" for v
    using that by (simp add: nth_middle_cases)
  have at: "cs_of (?d ! length xs) = cs @ c # cs'" "cs_of (?d' ! length xs) = cs @ cs'"
    by (simp_all add: cs_of_def)
  have eng: "english (?d ! v) = english (?d' ! v)" for v
    by (simp add: nth_middle_cases)
  have co: "chunk_occs U i (cs_of (?d ! i)) = chunk_occs U i (cs_of (?d' ! i))" for i
  proof (cases "i = length xs")
    case True
    then show ?thesis by (simp only: at chunk_occs_skip[OF nq])
  next
    case False
    from same[OF this] show ?thesis by simp
  qed
  have len: "length ?d = length ?d'" by simp
  have oc: "occs U (enumerate 0 ?d) = occs U (enumerate 0 ?d')"
    unfolding occs_enumerate len using co by simp
  have wm: "word_map U ?d = word_map U ?d'"
    by (simp add: word_map_wm_of oc)
  then have sw: "sorted_word_map U ?d = sorted_word_map U ?d'"
    by (simp add: sorted_word_map_def)
  have tl: "tone_lines U ((!) ?d) (sorted_word_map U ?d') = tone_lines U ((!) ?d') (sorted_word_map U ?d')"
  proof (rule tone_lines_cong)
    fix ch m fp v
    assume "(ch, m) \<in> set (sorted_word_map U ?d')" and fp: "fp \<in> fst ` set m"
    then have "(ch, m) \<in> set (word_map U ?d')" by (simp add: sorted_word_map_def)
    from word_map_recorded[OF this fp] have "list_ex (uc_letter U) ch" and "fp \<noteq> []"
      by simp_all
    with nq have nm: "\<not> (chinese c = Some ch \<and> normalize_pinyin_full U (get_pinyin c) = fp)"
      by (rule unqualified_no_match)
    show "first_match U ch fp (cs_of (?d ! v)) = first_match U ch fp (cs_of (?d' ! v))"
    proof (cases "v = length xs")
      case True
      then show ?thesis by (simp only: at first_match_skip[OF nm])
    next
      case False
      from same[OF this] show ?thesis by simp
    qed
  next
    fix v show "english (?d ! v) = english (?d' ! v)" by (rule eng)
  qed
  show ?thesis
    unfolding tones_section_closed sw tl ..
qed

lemma word_map_letter:
  assumes "(ch, m) \<in> set (word_map U data)"
  shows "list_ex (uc_letter U) ch"
proof -
  from assms have "ch \<in> fst ` set (occs U (enumerate 0 data))"
    unfolding word_map_wm_of wm_of_mem by simp
  then obtain k i where "(ch, k, i) \<in> set (occs U (enumerate 0 data))" by force
  then show ?thesis unfolding occs_mem qualifies_def by blast
qed

lemma chinese_line_block: "ChineseLine ch \<in> set (tone_block U g ch' m fps) \<longleftrightarrow> ch = ch'"
  by (auto simp: tone_block_def variant_line_def)

lemma chinese_line_mem:
  "ChineseLine ch \<in> set (tone_lines U g W) \<longleftrightarrow>
     (\<exists>m. (ch, m) \<in> set W \<and> inconsistent_sets U m \<noteq> [])"
proof
  assume "ChineseLine ch \<in> set (tone_lines U g W)"
  then obtain ch' m fps where "(ch', m) \<in> set W" and "fps \<in> set (inconsistent_sets U m)"
    and "ChineseLine ch \<in> set (tone_block U g ch' m fps)"
    unfolding tone_lines_def by auto
  then show "\<exists>m. (ch, m) \<in> set W \<and> inconsistent_sets U m \<noteq> []"
    unfolding chinese_line_block by force
next
  assume "\<exists>m. (ch, m) \<in> set W \<and> inconsistent_sets U m \<noteq> []"
  then obtain m fps where W: "(ch, m) \<in> set W" and fps: "fps \<in> set (inconsistent_sets U m)"
    by (metis last_in_set)
  have "ChineseLine ch \<in> set (tone_block U g ch m fps)" by (simp add: chinese_line_block)
  with W fps show "ChineseLine ch \<in> set (tone_lines U g W)"
    unfolding tone_lines_def by force
qed

lemma tones_reported_letter:
  assumes "tones_section U data = Some out" and "ChineseLine ch \<in> set out"
  shows "list_ex (uc_letter U) ch"
proof -
  from assms have "ChineseLine ch \<in> set (tone_lines U ((!) data) (sorted_word_map U data))"
    unfolding tones_section_closed by (auto split: if_splits)
  then obtain m where "(ch, m) \<in> set (sorted_word_map U data)"
    unfolding chinese_line_mem by blast
  then have "(ch, m) \<in> set (word_map U data)" by (simp add: sorted_word_map_def)
  then show ?thesis by (rule word_map_letter)
qed

lemma grouped_under_full_text:
  assumes "data = xs @ e\<lparr>chunks := Some cs\<rparr> # ys"
  shows "\<exists>idxs. (full_chinese cs, idxs) \<in> set (chinese_groups U data) \<and> length xs \<in> set idxs"
proof -
  have "valid_index data (length xs)" and "full_chinese (cs_of (data ! length xs)) = full_chinese cs"
    by (simp_all add: assms valid_index_def has_chunks_def cs_of_def)
  then have "length xs \<in> set (group_indices data (full_chinese cs))"
    by (simp add: group_indices_mem)
  moreover from this have "group_indices data (full_chinese cs) \<noteq> []" by auto
  ultimately show ?thesis unfolding chinese_groups_mem by blast
qed

section \<open>The claims\<close>

text \<open>
  Claim C1, as amended. \<open>duplicate_groups\<close> are the groups the duplicates loop
  counts (lemma \<open>duplicates_section_closed\<close>). Two different records lie in one
  counted duplicate group if and only if both have a \<open>chunks\<close> field, their
  concatenated Chinese texts are identical, and every record with chunks and that same
  Chinese text has the same full-letters key of its space-joined pinyin as they have. One
  record with the same Chinese text and another key suppresses the whole group.
\<close>

theorem duplicate_pair_iff:
  assumes "i \<noteq> j"
  shows "(\<exists>g\<in>set (duplicate_groups U data). i \<in> set (snd g) \<and> j \<in> set (snd g)) \<longleftrightarrow>
         valid_index data i \<and> valid_index data j \<and>
         full_chinese (cs_of (data ! i)) = full_chinese (cs_of (data ! j)) \<and>
         (\<forall>k. valid_index data k \<and> full_chinese (cs_of (data ! k)) = full_chinese (cs_of (data ! i))
              \<longrightarrow> sentence_key U (data ! k) = sentence_key U (data ! i))"
  (is "?L \<longleftrightarrow> ?R")
proof
  assume ?L
  then obtain g where gin: "g \<in> set (duplicate_groups U data)"
    and i: "i \<in> set (snd g)" and j: "j \<in> set (snd g)" by blast
  obtain ch idxs where g: "g = (ch, idxs)" by (cases g)
  from gin have mem: "(ch, idxs) \<in> set (duplicate_groups U data)" by (simp add: g)
  have idxs: "idxs = group_indices data ch"
    using mem unfolding duplicate_groups_mem by blast
  have same: "\<forall>v\<in>set idxs. \<forall>w\<in>set idxs. sentence_key U (data ! v) = sentence_key U (data ! w)"
    using mem unfolding duplicate_groups_mem by blast
  from i have i': "valid_index data i \<and> full_chinese (cs_of (data ! i)) = ch"
    unfolding g snd_conv idxs group_indices_mem .
  from j have j': "valid_index data j \<and> full_chinese (cs_of (data ! j)) = ch"
    unfolding g snd_conv idxs group_indices_mem .
  have "sentence_key U (data ! k) = sentence_key U (data ! i)"
    if "valid_index data k \<and> full_chinese (cs_of (data ! k)) = full_chinese (cs_of (data ! i))" for k
  proof -
    from that i' have "k \<in> set idxs" unfolding idxs group_indices_mem by metis
    moreover from i have "i \<in> set idxs" by (simp add: g)
    ultimately show ?thesis using same by blast
  qed
  with i' j' show ?R by metis
next
  assume R: ?R
  let ?ch = "full_chinese (cs_of (data ! i))"
  let ?idxs = "group_indices data ?ch"
  have i: "i \<in> set ?idxs" and j: "j \<in> set ?idxs"
    unfolding group_indices_mem using R by metis+
  with assms have "\<exists>a\<in>set ?idxs. \<exists>b\<in>set ?idxs. a \<noteq> b" by blast
  then have len: "length ?idxs > 1"
    using length_gt1_distinct[OF distinct_group_indices, of data ?ch] by blast
  have same: "\<forall>v\<in>set ?idxs. \<forall>w\<in>set ?idxs. sentence_key U (data ! v) = sentence_key U (data ! w)"
  proof (intro ballI)
    fix v w
    assume "v \<in> set ?idxs" and "w \<in> set ?idxs"
    then have "valid_index data v \<and> full_chinese (cs_of (data ! v)) = ?ch"
      and "valid_index data w \<and> full_chinese (cs_of (data ! w)) = ?ch"
      unfolding group_indices_mem by blast+
    with R have "sentence_key U (data ! v) = sentence_key U (data ! i)"
      and "sentence_key U (data ! w) = sentence_key U (data ! i)" by blast+
    then show "sentence_key U (data ! v) = sentence_key U (data ! w)" by simp
  qed
  have "(?ch, ?idxs) \<in> set (duplicate_groups U data)"
    unfolding duplicate_groups_mem using len same by blast
  moreover have "i \<in> set (snd (?ch, ?idxs))" "j \<in> set (snd (?ch, ?idxs))"
    using i j by simp_all
  ultimately show ?L by blast
qed

text \<open>
  The equivalence at the corpus of two records with the text U+884C and the pinyin
  \<open>xing\<close>.
\<close>

theorem duplicate_pair_iff_witness:
  "(0::nat) \<noteq> 1 \<and>
   (\<exists>g\<in>set (duplicate_groups py_ucd twice_corpus). 0 \<in> set (snd g) \<and> 1 \<in> set (snd g)) \<and>
   valid_index twice_corpus 0 \<and> valid_index twice_corpus 1 \<and>
   full_chinese (cs_of (twice_corpus ! 0)) = full_chinese (cs_of (twice_corpus ! 1)) \<and>
   sentence_key py_ucd (twice_corpus ! 1) = sentence_key py_ucd (twice_corpus ! 0)"
proof -
  have ne: "(0::nat) \<noteq> 1" by simp
  have ex: "\<exists>g\<in>set (duplicate_groups py_ucd twice_corpus). 0 \<in> set (snd g) \<and> 1 \<in> set (snd g)"
    by (simp add: dg_t)
  with duplicate_pair_iff[OF ne, of py_ucd twice_corpus] ne show ?thesis by metis
qed

text \<open>
  Claim C1 as stated fails: in the corpus of three records with the text U+884C, the
  first two with the pinyin \<open>xing\<close> and the third with \<open>hang\<close>, the first
  two records have the same Chinese text and the same key, and no duplicate is reported.
\<close>

theorem duplicate_pair_counterexample:
  "full_chinese (cs_of (homograph_corpus ! 0)) = full_chinese (cs_of (homograph_corpus ! 1)) \<and>
   sentence_key py_ucd (homograph_corpus ! 0) = sentence_key py_ucd (homograph_corpus ! 1) \<and>
   duplicate_groups py_ucd homograph_corpus = [] \<and>
   duplicates_section py_ucd homograph_corpus = Some [NoDuplicates]"
  by (simp add: dg_h duplicates_section_closed duplicates_summary_def)
     (simp add: homograph_corpus_def key_xing cs_of_def)

text \<open>
  Claim C4 (homograph exclusion). Two records with identical concatenated Chinese text
  whose space-joined pinyin normalizes to different full-letters keys are in no counted
  duplicate group at all, so never in the same one.
\<close>

theorem homograph_exclusion:
  assumes "i < length data" and "j < length data"
    and "chunks (data ! i) = Some ci" and "chunks (data ! j) = Some cj"
    and "full_chinese ci = full_chinese cj"
    and "normalize_pinyin_full U (full_py ci) \<noteq> normalize_pinyin_full U (full_py cj)"
  shows "\<not> (\<exists>g\<in>set (duplicate_groups U data). i \<in> set (snd g) \<or> j \<in> set (snd g))"
proof
  assume "\<exists>g\<in>set (duplicate_groups U data). i \<in> set (snd g) \<or> j \<in> set (snd g)"
  then obtain g where gin: "g \<in> set (duplicate_groups U data)"
    and ij: "i \<in> set (snd g) \<or> j \<in> set (snd g)" by blast
  obtain ch idxs where g: "g = (ch, idxs)" by (cases g)
  from gin have mem: "(ch, idxs) \<in> set (duplicate_groups U data)" by (simp add: g)
  have idxs: "idxs = group_indices data ch"
    using mem unfolding duplicate_groups_mem by simp
  have same: "\<forall>v\<in>set idxs. \<forall>w\<in>set idxs. sentence_key U (data ! v) = sentence_key U (data ! w)"
    using mem unfolding duplicate_groups_mem by blast
  have vi: "valid_index data i" and vj: "valid_index data j"
    using assms(1-4) by (simp_all add: valid_index_def has_chunks_def)
  have ci: "cs_of (data ! i) = ci" and cj: "cs_of (data ! j) = cj"
    using assms(3,4) by (simp_all add: cs_of_def)
  have ch: "ch = full_chinese ci"
  proof -
    from ij have "i \<in> set (group_indices data ch) \<or> j \<in> set (group_indices data ch)"
      by (simp add: g idxs[symmetric])
    then show ?thesis
      unfolding group_indices_mem ci cj using assms(5) by presburger
  qed
  have "i \<in> set idxs"
    unfolding idxs group_indices_mem using vi ch ci by simp
  moreover have "j \<in> set idxs"
    unfolding idxs group_indices_mem using vj ch cj assms(5) by simp
  ultimately have "sentence_key U (data ! i) = sentence_key U (data ! j)"
    using same by blast
  with assms(6) show False by (simp add: sentence_key_def ci cj)
qed

text \<open>
  The exclusion at the corpus of two records with the text U+884C, one read
  \<open>xing\<close> and one \<open>hang\<close>.
\<close>

theorem homograph_exclusion_witness:
  "\<not> (\<exists>g\<in>set (duplicate_groups py_ucd hang_corpus). 0 \<in> set (snd g) \<or> 1 \<in> set (snd g))"
proof -
  have c0: "chunks (hang_corpus ! 0) = Some [hang_chunk [120, 105, 110, 103]]"
    and c1: "chunks (hang_corpus ! 1) = Some [hang_chunk [104, 97, 110, 103]]"
    by (simp_all add: hang_corpus_def)
  have fc: "full_chinese [hang_chunk [120, 105, 110, 103]] = full_chinese [hang_chunk [104, 97, 110, 103]]"
    by (simp add: full_chinese_def get_chinese_def hang_chunk_def)
  have ne: "normalize_pinyin_full py_ucd (full_py [hang_chunk [120, 105, 110, 103]])
            \<noteq> normalize_pinyin_full py_ucd (full_py [hang_chunk [104, 97, 110, 103]])"
    by (simp add: full_py_def get_pinyin_def hang_chunk_def k1 k2)
  have l0: "0 < length hang_corpus" and l1: "1 < length hang_corpus"
    by (simp_all add: hang_corpus_def)
  show ?thesis
    by (rule homograph_exclusion[OF l0 l1 c0 c1 fc ne])
qed

text \<open>
  Claim C6 (reporting cap). The duplicates section consists of the three lines of each
  of the first ten counted duplicate groups, followed by one summary line; with exactly
  15 groups, ten groups are printed and the summary is the line stating 5 more. The
  counted groups are those of \<open>chinese_groups\<close> that pass the test of the loop, and the
  keys of \<open>chinese_groups\<close> stand in the order of the first occurrence of each
  Chinese text (\<open>firsts\<close> keeps the first occurrence of every element).
\<close>

theorem duplicates_cap:
  "duplicates_section U data =
     Some (concat (map (duplicate_lines ((!) data)) (take 10 (duplicate_groups U data)))
           @ [if length (duplicate_groups U data) > 10
              then MoreDuplicates (length (duplicate_groups U data) - 10)
              else if length (duplicate_groups U data) = 0 then NoDuplicates
              else FoundDuplicates (length (duplicate_groups U data))]) \<and>
   (length (duplicate_groups U data) = 15 \<longrightarrow>
      length (take 10 (duplicate_groups U data)) = 10 \<and>
      duplicates_section U data =
        Some (concat (map (duplicate_lines ((!) data)) (take 10 (duplicate_groups U data)))
              @ [MoreDuplicates 5])) \<and>
   duplicate_groups U data = filter (is_duplicate U ((!) data)) (chinese_groups U data) \<and>
   map fst (chinese_groups U data) =
     firsts (map (\<lambda>i. full_chinese (cs_of (data ! i))) (filter (valid_index data) [0..<length data]))"
  by (simp add: duplicates_section_closed duplicates_summary_def firsts_cg duplicate_groups_def)

text \<open>
  The cap at a corpus of 30 records forming 15 duplicate groups.
\<close>

theorem duplicates_cap_witness:
  "length (duplicate_groups py_ucd cap_corpus) = 15 \<and>
   length (take 10 (duplicate_groups py_ucd cap_corpus)) = 10 \<and>
   duplicates_section py_ucd cap_corpus =
     Some (concat (map (duplicate_lines ((!) cap_corpus)) (take 10 (duplicate_groups py_ucd cap_corpus)))
           @ [MoreDuplicates 5])"
  using duplicates_cap[of py_ucd cap_corpus] cap_dg by blast

text \<open>
  Claim C5 (punctuation exclusion). A chunk whose Chinese text (the empty string when the
  field is missing) contains no letter leaves the tone-inconsistency section unchanged
  whatever its pinyin: the section is the same with the chunk and without it, and its
  text is never the text of a reported group. The chunk still contributes to the
  duplicate key: its record is grouped under the concatenation that includes its text.
\<close>

theorem punctuation_exclusion:
  assumes "\<not> list_ex (uc_letter U) (get_chinese c)"
  shows "tones_section U (xs @ e\<lparr>chunks := Some (cs @ c # cs')\<rparr> # ys) =
           tones_section U (xs @ e\<lparr>chunks := Some (cs @ cs')\<rparr> # ys) \<and>
         \<not> (\<exists>out. tones_section U (xs @ e\<lparr>chunks := Some (cs @ c # cs')\<rparr> # ys) = Some out \<and>
                ChineseLine (get_chinese c) \<in> set out) \<and>
         (\<exists>idxs. (full_chinese cs @ get_chinese c @ full_chinese cs', idxs)
                    \<in> set (chinese_groups U (xs @ e\<lparr>chunks := Some (cs @ c # cs')\<rparr> # ys)) \<and>
                  length xs \<in> set idxs)"
proof (intro conjI)
  from assms have "\<not> qualifies U c" by (simp add: qualifies_def)
  then show "tones_section U (xs @ e\<lparr>chunks := Some (cs @ c # cs')\<rparr> # ys) =
           tones_section U (xs @ e\<lparr>chunks := Some (cs @ cs')\<rparr> # ys)"
    by (rule tones_section_skip)
  show "\<not> (\<exists>out. tones_section U (xs @ e\<lparr>chunks := Some (cs @ c # cs')\<rparr> # ys) = Some out \<and>
                ChineseLine (get_chinese c) \<in> set out)"
    using assms tones_reported_letter by blast
  have "full_chinese (cs @ c # cs') = full_chinese cs @ get_chinese c @ full_chinese cs'"
    by (simp add: full_chinese_def)
  with grouped_under_full_text[OF refl, where U=U and xs=xs and e=e and cs="cs @ c # cs'" and ys=ys]
  show "\<exists>idxs. (full_chinese cs @ get_chinese c @ full_chinese cs', idxs)
                    \<in> set (chinese_groups U (xs @ e\<lparr>chunks := Some (cs @ c # cs')\<rparr> # ys)) \<and>
                  length xs \<in> set idxs"
    by simp
qed

text \<open>
  The exclusion at a record holding the chunk U+884C read \<open>xing\<close> followed by an
  ideographic full stop U+3002.
\<close>

theorem punctuation_exclusion_witness:
  "\<not> list_ex (uc_letter py_ucd) (get_chinese stop_chunk) \<and>
   tones_section py_ucd ([] @ bare_entry\<lparr>chunks := Some ([hang_chunk [120, 105, 110, 103]] @ stop_chunk # [])\<rparr> # []) =
     tones_section py_ucd ([] @ bare_entry\<lparr>chunks := Some ([hang_chunk [120, 105, 110, 103]] @ [])\<rparr> # []) \<and>
   (\<exists>idxs. (full_chinese [hang_chunk [120, 105, 110, 103]] @ get_chinese stop_chunk @ full_chinese [], idxs)
        \<in> set (chinese_groups py_ucd
              ([] @ bare_entry\<lparr>chunks := Some ([hang_chunk [120, 105, 110, 103]] @ stop_chunk # [])\<rparr> # [])) \<and>
      length ([] :: entry list) \<in> set idxs)"
proof -
  have h: "\<not> list_ex (uc_letter py_ucd) (get_chinese stop_chunk)"
    by (simp add: stop_chunk_def get_chinese_def py_eval)
  from punctuation_exclusion[where U=py_ucd and c=stop_chunk and xs="[]" and e=bare_entry
        and cs="[hang_chunk [120, 105, 110, 103]]" and cs'="[]" and ys="[]", OF h] h
  show ?thesis by blast
qed

text \<open>
  Claim C9. A chunk whose pinyin has an empty full-letters normalization leaves the
  tone-inconsistency section unchanged, whether or not its Chinese text contains
  letters: the section is the same with the chunk and without it, and no reading of
  \<open>word_map\<close> is the empty string.
\<close>

theorem empty_pinyin_exclusion:
  assumes "normalize_pinyin_full U (get_pinyin c) = []"
  shows "tones_section U (xs @ e\<lparr>chunks := Some (cs @ c # cs')\<rparr> # ys) =
           tones_section U (xs @ e\<lparr>chunks := Some (cs @ cs')\<rparr> # ys) \<and>
         \<not> (\<exists>ch m. (ch, m) \<in> set (word_map U (xs @ e\<lparr>chunks := Some (cs @ c # cs')\<rparr> # ys)) \<and>
                  [] \<in> fst ` set m)"
proof
  from assms have "\<not> qualifies U c" by (simp add: qualifies_def)
  then show "tones_section U (xs @ e\<lparr>chunks := Some (cs @ c # cs')\<rparr> # ys) =
           tones_section U (xs @ e\<lparr>chunks := Some (cs @ cs')\<rparr> # ys)"
    by (rule tones_section_skip)
  show "\<not> (\<exists>ch m. (ch, m) \<in> set (word_map U (xs @ e\<lparr>chunks := Some (cs @ c # cs')\<rparr> # ys)) \<and>
                  [] \<in> fst ` set m)"
    using word_map_recorded by blast
qed

text \<open>
  The exclusion at a chunk with the text U+884C, which is a letter, and the pinyin
  \<open>...\<close>.
\<close>

theorem empty_pinyin_exclusion_witness:
  "list_ex (uc_letter py_ucd) (get_chinese blank_chunk) \<and>
   normalize_pinyin_full py_ucd (get_pinyin blank_chunk) = [] \<and>
   tones_section py_ucd ([] @ bare_entry\<lparr>chunks := Some ([hang_chunk [120, 105, 110, 103]] @ blank_chunk # [])\<rparr> # []) =
     tones_section py_ucd ([] @ bare_entry\<lparr>chunks := Some ([hang_chunk [120, 105, 110, 103]] @ [])\<rparr> # [])"
proof -
  have l: "list_ex (uc_letter py_ucd) (get_chinese blank_chunk)"
    by (simp add: blank_chunk_def get_chinese_def py_eval)
  have h: "normalize_pinyin_full py_ucd (get_pinyin blank_chunk) = []"
    by (simp add: blank_chunk_def get_pinyin_def py_eval)
  from empty_pinyin_exclusion[where U=py_ucd and c=blank_chunk and xs="[]" and e=bare_entry
        and cs="[hang_chunk [120, 105, 110, 103]]" and cs'="[]" and ys="[]", OF h] h l
  show ?thesis by blast
qed

end
